theory Spec2Isabelle
  imports Main "HOL-Library.Word"
begin

section \<open>JavaScript strings\<close>

text \<open>
  A JavaScript string is a sequence of 16-bit code units; \<open>str[i]\<close> and
  \<open>charCodeAt\<close> read single units. String literals of the source are written
  \<open>js ''...''\<close>.
\<close>

type_synonym jschar = "16 word"
type_synonym jsstring = "jschar list"

definition js :: "string \<Rightarrow> jsstring" where
  "js s = map of_char s"

text \<open>
  \<open>String.prototype.lastIndexOf\<close> with a one-unit needle: the greatest index holding
  the unit, or \<open>-1\<close>.
\<close>

fun lastIndexOf :: "jsstring \<Rightarrow> jschar \<Rightarrow> int" where
  "lastIndexOf [] c = -1"
| "lastIndexOf (x # xs) c =
     (let r = lastIndexOf xs c
      in if r \<noteq> -1 then r + 1 else if x = c then 0 else -1)"

text \<open>\<open>str.slice(0, i)\<close> for \<open>0 \<le> i\<close>: the first \<open>i\<close> units.\<close>

definition slice0 :: "jsstring \<Rightarrow> int \<Rightarrow> jsstring" where
  "slice0 str i = take (nat i) str"

text \<open>\<open>str.startsWith(p)\<close>.\<close>

definition startsWith :: "jsstring \<Rightarrow> jsstring \<Rightarrow> bool" where
  "startsWith str p = (take (length p) str = p)"

text \<open>
  \<open>toUpperCase\<close> and \<open>toLowerCase\<close>. The source applies them only to one-unit
  strings that passed \<open>IsLetterNumber\<close>, where the Unicode case mapping is the ASCII
  one: a letter moves by \<open>0x20\<close>, a digit stays. Units outside the ASCII letters are
  left as they are here.
\<close>

definition upper_unit :: "jschar \<Rightarrow> jschar" where
  "upper_unit c = (if 0x61 \<le> c \<and> c \<le> 0x7A then c - 0x20 else c)"

definition lower_unit :: "jschar \<Rightarrow> jschar" where
  "lower_unit c = (if 0x41 \<le> c \<and> c \<le> 0x5A then c + 0x20 else c)"

definition toUpperCase :: "jsstring \<Rightarrow> jsstring" where
  "toUpperCase s = map upper_unit s"

definition toLowerCase :: "jsstring \<Rightarrow> jsstring" where
  "toLowerCase s = map lower_unit s"

section \<open>The identifier deriver\<close>

text \<open>
  \<open>IsLetterNumber(str)\<close> looks at \<open>str.charCodeAt(0)\<close>; on the empty string that is
  \<open>NaN\<close>, every comparison fails and the result is \<open>false\<close>.
\<close>

definition IsLetterNumber :: "jsstring \<Rightarrow> bool" where
  "IsLetterNumber str =
     (case str of
        [] \<Rightarrow> False
      | char # _ \<Rightarrow>
          if 0x61 \<le> char \<and> char \<le> 0x7A then True
          else if 0x41 \<le> char \<and> char \<le> 0x5A then True
          else if 0x30 \<le> char \<and> char \<le> 0x39 then True
          else False)"

text \<open>
  The \<open>for\<close> loop of \<open>Namespace\<close>, with its index \<open>i\<close> and the two variables
  \<open>capital\<close> and \<open>out\<close> it updates. \<open>str[i]\<close> is read only below \<open>str.length\<close>.
\<close>

function Namespace_loop :: "jsstring \<Rightarrow> nat \<Rightarrow> bool \<Rightarrow> jsstring \<Rightarrow> jsstring" where
  "Namespace_loop str i capital out =
     (if i < length str then
        (if \<not> IsLetterNumber [str ! i] then Namespace_loop str (i + 1) True out
         else if capital then Namespace_loop str (i + 1) False (out @ toUpperCase [str ! i])
         else Namespace_loop str (i + 1) capital (out @ toLowerCase [str ! i]))
      else out)"
  by pat_completeness auto
termination
  by (relation "measure (\<lambda>(str, i, capital, out). length str - i)") auto

definition Namespace :: "jsstring \<Rightarrow> jsstring" where
  "Namespace str0 =
     (let i = lastIndexOf str0 0x2E;
          str = (if i \<noteq> -1 then slice0 str0 i else str0)
      in if length str < 1 then [] else Namespace_loop str 0 True [])"

subsection \<open>The algorithm as the specification words it\<close>

definition ascii_alnum :: "jschar \<Rightarrow> bool" where
  "ascii_alnum c \<longleftrightarrow>
     (0x61 \<le> c \<and> c \<le> 0x7A) \<or> (0x41 \<le> c \<and> c \<le> 0x5A) \<or> (0x30 \<le> c \<and> c \<le> 0x39)"

text \<open>Everything from the last \<open>.\<close> onward is dropped, if there is a \<open>.\<close>.\<close>

definition stem_spec :: "jsstring \<Rightarrow> jsstring" where
  "stem_spec s =
     (if 0x2E \<in> set s then rev (tl (dropWhile (\<lambda>c. c \<noteq> 0x2E) (rev s))) else s)"

text \<open>The left-to-right scan with its start-of-segment flag.\<close>

fun scan_spec :: "bool \<Rightarrow> jsstring \<Rightarrow> jsstring" where
  "scan_spec flag [] = []"
| "scan_spec flag (c # cs) =
     (if ascii_alnum c
      then (if flag then upper_unit c else lower_unit c) # scan_spec False cs
      else scan_spec True cs)"

definition deriveIdentifier_spec :: "jsstring \<Rightarrow> jsstring" where
  "deriveIdentifier_spec s =
     (let stem = stem_spec s in if stem = [] then [] else scan_spec True stem)"

section \<open>The ignore context\<close>

text \<open>
  Modelled from the spec: the pattern-matching engine is the package \<open>ignore\<close>, which
  is not part of the sources. The specification describes it as a capability with
  \<open>compile(patternText) -> Matcher\<close> and \<open>Matcher.test(path) -> matched: bool\<close>. A
  compiled pattern set is therefore its test function, and \<open>compile\<close> (the source's
  \<open>ignore().add(rules)\<close>) is a parameter \<open>c\<close> of the walker.
\<close>

type_synonym Matcher = "jsstring \<Rightarrow> bool"

text \<open>
  The class \<open>Context\<close>: \<open>#parent\<close> and \<open>#rules\<close> are optional. A context's rules are
  set once, at the start of its own \<open>barrel\<close>, before any child context is
  constructed from it, and never afterwards; the reference a child keeps to its
  parent is therefore modelled by the parent's value at that moment.
\<close>

datatype Context =
  Context (folder: jsstring) (fullPath: jsstring) (parent: "Context option")
    (rules: "Matcher option")

text \<open>The constructor.\<close>

definition new_Context :: "jsstring \<Rightarrow> Context option \<Rightarrow> Context" where
  "new_Context fld par =
     Context fld (case par of Some p \<Rightarrow> fullPath p @ fld | None \<Rightarrow> fld) par None"

fun ignored :: "Context \<Rightarrow> jsstring \<Rightarrow> bool" where
  "ignored (Context fld fp par rs) p =
     (if p = js ''.git'' then False
      else if p = js ''node_modules'' then False
      else if (case rs of Some r \<Rightarrow> r p | None \<Rightarrow> False) then True
      else (case par of None \<Rightarrow> False | Some pc \<Rightarrow> ignored pc (fld @ p)))"

section \<open>The file system\<close>

text \<open>
  The part of the file system under the root of the walk, as a tree. A directory is
  its listing: the names \<open>readdir\<close> yields, in the order it yields them, each with
  the node found under that name. Under a name the loop does not skip, a node is
  only ever passed to \<open>lstat\<close>, and \<open>Other\<close> is any node that \<open>lstat\<close> reports as
  neither a directory nor a regular file (a symbolic link, a socket, a device).
  The two names \<open>.barrelignore\<close> and \<open>mod.ts\<close> are skipped by the loop and reached
  by \<open>readFile\<close> and \<open>writeFile\<close> alone, which follow a symbolic link: under these
  names \<open>File\<close> stands for whatever opens as a regular file with that content, and
  \<open>Other\<close> for a node that cannot be opened as one (a socket, for instance).

  The walker reaches a node only through \<open>this.fullPath + name\<close>, where \<open>fullPath\<close>
  is the path of the directory it is walking; the model passes the directory's
  listing instead of resolving the path string.
\<close>

datatype node = File jsstring | Dir "(jsstring \<times> node) list" | Other

type_synonym entries = "(jsstring \<times> node) list"

datatype error = ENOENT | EISDIR | ENOTDIR | ENXIO

text \<open>\<open>readFile(fullPath + name, 'utf8')\<close> in the directory with listing \<open>es\<close>.\<close>

definition readFile :: "entries \<Rightarrow> jsstring \<Rightarrow> error + jsstring" where
  "readFile es name =
     (case map_of es name of
        None \<Rightarrow> Inl ENOENT
      | Some (File s) \<Rightarrow> Inr s
      | Some (Dir _) \<Rightarrow> Inl EISDIR
      | Some Other \<Rightarrow> Inl ENXIO)"

text \<open>\<open>WeakRead\<close>: any failure of the read becomes \<open>null\<close>.\<close>

definition WeakRead :: "entries \<Rightarrow> jsstring \<Rightarrow> jsstring option" where
  "WeakRead es name = (case readFile es name of Inr s \<Rightarrow> Some s | Inl e \<Rightarrow> None)"

text \<open>
  \<open>writeFile(fullPath + name, data)\<close>: an existing regular file is replaced where it
  stands in the listing, and writing over a directory fails. A new file has to be
  listed somewhere, and this function lists it last; where a file system lists it
  is not determined. The relation \<open>similar\<close> below covers every other place, and
  the idempotence of the walk is stated for all of them.
\<close>

fun writeFile :: "entries \<Rightarrow> jsstring \<Rightarrow> jsstring \<Rightarrow> error + entries" where
  "writeFile [] name data = Inr [(name, File data)]"
| "writeFile ((k, n) # es) name data =
     (if k = name then
        (case n of
           File _ \<Rightarrow> Inr ((k, File data) # es)
         | Dir _ \<Rightarrow> Inl EISDIR
         | Other \<Rightarrow> Inl ENXIO)
      else
        (case writeFile es name data of
           Inl e \<Rightarrow> Inl e
         | Inr es' \<Rightarrow> Inr ((k, n) # es')))"

section \<open>The tree walker\<close>

record Entry =
  namespace :: jsstring
  path :: jsstring

text \<open>
  Lines 46 to 49 of \<open>barrel\<close>: the rule file is read when the context has no rules
  yet, and compiled when the read gave a non-empty string (\<open>null\<close> and \<open>''\<close> are both
  falsy).
\<close>

definition load_rules :: "(jsstring \<Rightarrow> Matcher) \<Rightarrow> Context \<Rightarrow> entries \<Rightarrow> Context" where
  "load_rules c ctx es =
     (case rules ctx of
        Some _ \<Rightarrow> ctx
      | None \<Rightarrow>
         (case WeakRead es (js ''.barrelignore'') of
            None \<Rightarrow> ctx
          | Some r \<Rightarrow>
              if r \<noteq> [] then Context (folder ctx) (fullPath ctx) (parent ctx) (Some (c r))
              else ctx))"

text \<open>Lines 78 and 79: \<open>source\<close> grows by one template literal per entry.\<close>

definition render :: "Entry list \<Rightarrow> jsstring" where
  "render includes =
     foldl (\<lambda>source file.
         source @ js ''export * as '' @ namespace file @ js '' from '' @ [0x27] @ js ''./''
           @ path file @ [0x27] @ js '';'' @ [0x0A])
       [] includes"

text \<open>
  Lines 76 to 86, applied to what the loop left: its outcome (an error, or the
  collected \<open>includes\<close>) and the directory's listing after it.
\<close>

definition barrel_write :: "(error + Entry list) \<times> entries \<Rightarrow> (error + bool) \<times> node" where
  "barrel_write lr =
     (case lr of
        (Inl e, es') \<Rightarrow> (Inl e, Dir es')
      | (Inr includes, es') \<Rightarrow>
          if length includes < 1 then (Inr False, Dir es')
          else
            (case writeFile es' (js ''mod.ts'') (render includes) of
               Inl e \<Rightarrow> (Inl e, Dir es')
             | Inr es'' \<Rightarrow> (Inr True, Dir es'')))"

text \<open>
  \<open>barrel\<close> on the directory that \<open>fullPath\<close> names, and its \<open>for\<close> loop over the
  listing. Both return the outcome together with the file system as they leave it:
  a failure (of \<open>readdir\<close> on something that is not a directory, of \<open>writeFile\<close>)
  ends the walk and keeps what was written before. The loop carries \<open>includes\<close>;
  each entry is put back into the listing as the iteration leaves it.
\<close>

fun barrel :: "(jsstring \<Rightarrow> Matcher) \<Rightarrow> Context \<Rightarrow> node \<Rightarrow> (error + bool) \<times> node"
and barrel_loop ::
  "(jsstring \<Rightarrow> Matcher) \<Rightarrow> Context \<Rightarrow> entries \<Rightarrow> Entry list \<Rightarrow> (error + Entry list) \<times> entries"
where
  "barrel c ctx (Dir es) = barrel_write (barrel_loop c (load_rules c ctx es) es [])"
| "barrel c ctx (File s) = (Inl ENOTDIR, File s)"
| "barrel c ctx Other = (Inl ENOTDIR, Other)"
| "barrel_loop c ctx [] includes = (Inr includes, [])"
| "barrel_loop c ctx ((p, n) # rest) includes =
     (if startsWith p (js ''.'') then apsnd (Cons (p, n)) (barrel_loop c ctx rest includes)
      else if p = js ''node_modules'' then apsnd (Cons (p, n)) (barrel_loop c ctx rest includes)
      else if p = js ''mod.ts'' then apsnd (Cons (p, n)) (barrel_loop c ctx rest includes)
      else
        (case n of
           Dir _ \<Rightarrow>
             (case barrel c (new_Context (p @ js ''/'') (Some ctx)) n of
                (Inl e, n') \<Rightarrow> (Inl e, (p, n') # rest)
              | (Inr entry, n') \<Rightarrow>
                  apsnd (Cons (p, n'))
                    (barrel_loop c ctx rest
                       (if entry
                        then includes @ [\<lparr>namespace = Namespace p, path = p @ js ''/mod.ts''\<rparr>]
                        else includes)))
         | File _ \<Rightarrow>
             (if ignored ctx p then apsnd (Cons (p, n)) (barrel_loop c ctx rest includes)
              else
                apsnd (Cons (p, n))
                  (barrel_loop c ctx rest (includes @ [\<lparr>namespace = Namespace p, path = p\<rparr>])))
         | Other \<Rightarrow> apsnd (Cons (p, n)) (barrel_loop c ctx rest includes)))"

text \<open>The last two lines of the program: the walk from the root \<open>./\<close>.\<close>

definition main :: "(jsstring \<Rightarrow> Matcher) \<Rightarrow> node \<Rightarrow> (error + bool) \<times> node" where
  "main c root = barrel c (new_Context (js ''./'') None) root"

text \<open>The names the loop passes over before it looks at the entry (lines 53 to 55).\<close>

definition skipped :: "jsstring \<Rightarrow> bool" where
  "skipped p \<longleftrightarrow> startsWith p (js ''.'') \<or> p = js ''node_modules'' \<or> p = js ''mod.ts''"

subsection \<open>The re-export line as the specification words it\<close>

definition export_line :: "Entry \<Rightarrow> jsstring" where
  "export_line e =
     js ''export * as '' @ namespace e @ js '' from '' @ [0x27] @ js ''./'' @ path e
       @ [0x27] @ js '';'' @ [0x0A]"

subsection \<open>A directory without one of its entries\<close>

text \<open>The listing with every entry of the given name removed.\<close>

definition without :: "jsstring \<Rightarrow> entries \<Rightarrow> entries" where
  "without name es = filter (\<lambda>e. fst e \<noteq> name) es"

definition dir_without :: "jsstring \<Rightarrow> node \<Rightarrow> node" where
  "dir_without name n =
     (case n of Dir es \<Rightarrow> Dir (without name es) | File s \<Rightarrow> File s | Other \<Rightarrow> Other)"

subsection \<open>Trees that differ only in where \<open>mod.ts\<close> is listed\<close>

text \<open>
  \<open>similar n1 n2\<close>: directory by directory, the two trees show the same node under
  \<open>mod.ts\<close>, and their other entries are the same names in the same order with
  similar nodes. The tree a file system shows after a walk is similar to the tree
  \<open>barrel\<close> returns: it lists each new \<open>mod.ts\<close> where it will, and leaves the order
  of the other entries as it was.
\<close>

function similar :: "node \<Rightarrow> node \<Rightarrow> bool"
and same_listing :: "entries \<Rightarrow> entries \<Rightarrow> bool" where
  "similar (File s) n2 = (n2 = File s)"
| "similar Other n2 = (n2 = Other)"
| "similar (Dir es1) (File s) = False"
| "similar (Dir es1) Other = False"
| "similar (Dir es1) (Dir es2) =
     (map_of es1 (js ''mod.ts'') = map_of es2 (js ''mod.ts'')
      \<and> same_listing (without (js ''mod.ts'') es1) (without (js ''mod.ts'') es2))"
| "same_listing [] [] = True"
| "same_listing ((k1, n1) # r1) ((k2, n2) # r2) =
     (k1 = k2 \<and> similar n1 n2 \<and> same_listing r1 r2)"
| "same_listing [] (e # r2) = False"
| "same_listing (e # r1) [] = False"
  by pat_completeness auto
termination
proof (relation "measure (\<lambda>x. case x of Inl (n1, n2) \<Rightarrow> 2 * size n1 + 1
                                         | Inr (es1, es2) \<Rightarrow> 2 * size (Dir es1))")
  show "wf (measure (\<lambda>x. case x of Inl (n1, n2) \<Rightarrow> 2 * size n1 + 1
                                         | Inr (es1, es2) \<Rightarrow> 2 * size (Dir es1)))"
    by simp
next
  fix es1 es2 :: entries
  have "size_list f (filter P es1) \<le> size_list f es1" for f :: "jsstring \<times> node \<Rightarrow> nat" and P
    by (induction es1) auto
  then show "(Inr (without (js ''mod.ts'') es1, without (js ''mod.ts'') es2), Inl (Dir es1, Dir es2))
    \<in> measure (\<lambda>x. case x of Inl (n1, n2) \<Rightarrow> 2 * size n1 + 1
                                         | Inr (es1, es2) \<Rightarrow> 2 * size (Dir es1))"
    by (simp add: without_def le_imp_less_Suc)
qed auto

subsection \<open>An example\<close>

text \<open>
  A small engine for the examples: the pattern text is one path, matched literally.
  The tree is the scenario of the specification: \<open>foo.ts\<close>, \<open>bar-baz.ts\<close> and a
  directory \<open>qux\<close> holding \<open>a.ts\<close>, with no rule files; \<open>example_walked\<close> is the tree
  with the two aggregator files.
\<close>

definition literal_engine :: "jsstring \<Rightarrow> Matcher" where
  "literal_engine text p \<longleftrightarrow> p = text"

definition example_tree :: node where
  "example_tree =
     Dir [(js ''foo.ts'', File []), (js ''bar-baz.ts'', File []),
          (js ''qux'', Dir [(js ''a.ts'', File [])])]"

definition example_walked :: node where
  "example_walked =
     Dir [(js ''foo.ts'', File []), (js ''bar-baz.ts'', File []),
          (js ''qux'',
             Dir [(js ''a.ts'', File []),
                  (js ''mod.ts'',
                     File (export_line \<lparr>namespace = js ''A'', path = js ''a.ts''\<rparr>))]),
          (js ''mod.ts'',
             File (export_line \<lparr>namespace = js ''Foo'', path = js ''foo.ts''\<rparr>
                 @ export_line \<lparr>namespace = js ''BarBaz'', path = js ''bar-baz.ts''\<rparr>
                 @ export_line \<lparr>namespace = js ''Qux'', path = js ''qux/mod.ts''\<rparr>))]"

text \<open>
  The walked tree as a file system may list it: the root's \<open>mod.ts\<close> before \<open>qux\<close>,
  and the \<open>mod.ts\<close> of \<open>qux\<close> before \<open>a.ts\<close>.
\<close>

definition example_relisted :: node where
  "example_relisted =
     Dir [(js ''foo.ts'', File []), (js ''bar-baz.ts'', File []),
          (js ''mod.ts'',
             File (export_line \<lparr>namespace = js ''Foo'', path = js ''foo.ts''\<rparr>
                 @ export_line \<lparr>namespace = js ''BarBaz'', path = js ''bar-baz.ts''\<rparr>
                 @ export_line \<lparr>namespace = js ''Qux'', path = js ''qux/mod.ts''\<rparr>)),
          (js ''qux'',
             Dir [(js ''mod.ts'',
                     File (export_line \<lparr>namespace = js ''A'', path = js ''a.ts''\<rparr>)),
                  (js ''a.ts'', File [])])]"

section \<open>Properties of the identifier deriver\<close>

lemma IsLetterNumber_unit: "IsLetterNumber [c] \<longleftrightarrow> ascii_alnum c"
  by (auto simp: IsLetterNumber_def ascii_alnum_def)

lemma Namespace_loop_scan:
  "Namespace_loop str i capital out = out @ scan_spec capital (drop i str)"
proof (induction str i capital out rule: Namespace_loop.induct)
  case (1 str i capital out)
  show ?case
  proof (cases "i < length str")
    case False
    then show ?thesis by (simp add: Namespace_loop.simps [of str i])
  next
    case True
    then have d: "drop i str = str ! i # drop (i + 1) str"
      by (simp add: Cons_nth_drop_Suc)
    show ?thesis
      using True "1.IH"
      by (subst Namespace_loop.simps)
         (simp add: d IsLetterNumber_unit toUpperCase_def toLowerCase_def
               del: Namespace_loop.simps)
  qed
qed

lemma lastIndexOf_none: "c \<notin> set s \<Longrightarrow> lastIndexOf s c = -1"
  by (induction s) (auto simp: Let_def)

lemma lastIndexOf_range: "lastIndexOf s c = -1 \<or> (0 \<le> lastIndexOf s c \<and> lastIndexOf s c < int (length s))"
  by (induction s) (auto simp: Let_def)

lemma lastIndexOf_ge: "-1 \<le> lastIndexOf s c"
  by (induction s) (auto simp: Let_def)

lemma lastIndexOf_some: "c \<in> set s \<Longrightarrow> lastIndexOf s c \<noteq> -1"
proof (induction s)
  case Nil
  then show ?case by simp
next
  case (Cons x xs)
  have "lastIndexOf xs c + 1 \<noteq> -1"
    using lastIndexOf_ge [of xs c] by arith
  then show ?case
    using Cons.prems Cons.IH by (auto simp: Let_def)
qed

lemma take_lastIndexOf:
  "c \<in> set s \<Longrightarrow> take (nat (lastIndexOf s c)) s = rev (tl (dropWhile (\<lambda>x. x \<noteq> c) (rev s)))"
proof (induction s)
  case Nil
  then show ?case by simp
next
  case (Cons x xs)
  show ?case
  proof (cases "c \<in> set xs")
    case True
    then have ne: "lastIndexOf xs c \<noteq> -1" by (rule lastIndexOf_some)
    with lastIndexOf_range [of xs c] have ge: "0 \<le> lastIndexOf xs c" by auto
    have dw: "dropWhile (\<lambda>x. x \<noteq> c) (rev xs @ [x]) = dropWhile (\<lambda>x. x \<noteq> c) (rev xs) @ [x]"
      using True by (simp add: dropWhile_append1)
    have nonempty: "dropWhile (\<lambda>x. x \<noteq> c) (rev xs) \<noteq> []"
      using True by (simp add: dropWhile_eq_Nil_conv)
    have "take (nat (lastIndexOf (x # xs) c)) (x # xs) = x # take (nat (lastIndexOf xs c)) xs"
      using ne ge by (simp add: Let_def nat_add_distrib)
    also have "\<dots> = x # rev (tl (dropWhile (\<lambda>x. x \<noteq> c) (rev xs)))"
      using Cons.IH True by simp
    also have "\<dots> = rev (tl (dropWhile (\<lambda>x. x \<noteq> c) (rev (x # xs))))"
      using nonempty by (simp add: dw)
    finally show ?thesis .
  next
    case False
    with Cons.prems have xc: "x = c" by simp
    have "dropWhile (\<lambda>x. x \<noteq> c) (rev xs @ [x]) = dropWhile (\<lambda>x. x \<noteq> c) [x]"
      using False by (intro dropWhile_append2) auto
    then have "dropWhile (\<lambda>x. x \<noteq> c) (rev xs @ [x]) = [x]"
      using xc by simp
    then show ?thesis
      using False xc by (simp add: lastIndexOf_none Let_def)
  qed
qed

lemma stem_code_spec:
  "(if lastIndexOf s 0x2E \<noteq> -1 then slice0 s (lastIndexOf s 0x2E) else s) = stem_spec s"
proof (cases "0x2E \<in> set s")
  case True
  then show ?thesis
    by (simp add: stem_spec_def slice0_def lastIndexOf_some take_lastIndexOf)
next
  case False
  then show ?thesis
    by (simp add: stem_spec_def lastIndexOf_none)
qed

lemma Namespace_eq_spec: "Namespace s = deriveIdentifier_spec s"
proof -
  have "Namespace s =
      (let str = stem_spec s in if length str < 1 then [] else Namespace_loop str 0 True [])"
    unfolding Namespace_def Let_def stem_code_spec ..
  also have "\<dots> = deriveIdentifier_spec s"
    by (simp add: deriveIdentifier_spec_def Let_def Namespace_loop_scan
          del: Namespace_loop.simps)
  finally show ?thesis .
qed

lemmas ident_eval =
  Namespace_eq_spec deriveIdentifier_spec_def stem_spec_def js_def ascii_alnum_def
  upper_unit_def lower_unit_def

lemma upper_alnum: "ascii_alnum c \<Longrightarrow> ascii_alnum (upper_unit c)"
  unfolding ascii_alnum_def upper_unit_def
  by (auto simp: word_le_nat_alt unat_sub)

lemma lower_alnum: "ascii_alnum c \<Longrightarrow> ascii_alnum (lower_unit c)"
  unfolding ascii_alnum_def lower_unit_def
  by (auto simp: word_le_nat_alt unat_word_ariths)

lemma scan_alnum: "c \<in> set (scan_spec f s) \<Longrightarrow> ascii_alnum c"
  by (induction f s rule: scan_spec.induct)
     (auto simp: upper_alnum lower_alnum split: if_splits)

lemma Namespace_alnum: "c \<in> set (Namespace s) \<Longrightarrow> ascii_alnum c"
  by (auto simp: Namespace_eq_spec deriveIdentifier_spec_def Let_def
        dest: scan_alnum split: if_splits)

text \<open>
  Claim C4. On every filename, \<open>Namespace\<close> (the deriver of the source) returns what
  the algorithm of the specification returns: the stem before the last \<open>.\<close>, the
  empty string when the stem is empty, and otherwise the scan that drops every unit
  that is not an ASCII letter or digit and writes a kept unit in upper case at the
  start of a segment and in lower case elsewhere.
\<close>

theorem Namespace_refines_spec: "Namespace s = deriveIdentifier_spec s"
  by (rule Namespace_eq_spec)

theorem Namespace_refines_spec_witness:
  "Namespace (js ''my-file.ts'') = deriveIdentifier_spec (js ''my-file.ts'')
   \<and> deriveIdentifier_spec (js ''my-file.ts'') = js ''MyFile''"
  using Namespace_refines_spec [of "js ''my-file.ts''"]
  by (simp add: deriveIdentifier_spec_def stem_spec_def js_def ascii_alnum_def
        upper_unit_def lower_unit_def)

text \<open>
  Claim C5, as stated: the identifier derived from \<open>a.b.ts\<close> is \<open>A\<close>. It is not.
\<close>

theorem Namespace_a_b_ts_not_A: "Namespace (js ''a.b.ts'') \<noteq> js ''A''"
  by (simp add: ident_eval)

text \<open>
  Claim C5, amended: the identifier derived from \<open>a.b.ts\<close> is \<open>AB\<close>. Only the final
  extension is stripped; the inner \<open>.\<close> is dropped and starts a new segment.
\<close>

theorem Namespace_a_b_ts: "Namespace (js ''a.b.ts'') = js ''AB''"
  by (simp add: ident_eval)

text \<open>
  Claim C10. Every unit of a derived identifier is an ASCII letter or an ASCII
  digit; and an identifier can begin with a digit: from \<open>2d.ts\<close> the deriver gives
  \<open>2d\<close>, whose first unit is a digit.
\<close>

theorem Namespace_alnum_digit_first:
  "(\<forall>c \<in> set (Namespace s). ascii_alnum c)
   \<and> Namespace (js ''2d.ts'') = js ''2d''
   \<and> 0x30 \<le> hd (Namespace (js ''2d.ts'')) \<and> hd (Namespace (js ''2d.ts'')) \<le> 0x39"
proof -
  have "Namespace (js ''2d.ts'') = js ''2d''"
    by (simp add: ident_eval)
  moreover have "0x30 \<le> hd (js ''2d'') \<and> hd (js ''2d'') \<le> 0x39"
    by (simp add: js_def)
  ultimately show ?thesis
    using Namespace_alnum by auto
qed

theorem Namespace_alnum_digit_first_witness:
  "Namespace (js ''bar-baz.ts'') = js ''BarBaz''
   \<and> list_all ascii_alnum (js ''BarBaz'')"
proof -
  have e: "Namespace (js ''bar-baz.ts'') = js ''BarBaz''"
    by (simp add: ident_eval)
  show ?thesis
    using Namespace_alnum_digit_first [of "js ''bar-baz.ts''"] unfolding e
    by (simp add: list_all_iff)
qed

section \<open>Properties of the ignore context\<close>

text \<open>
  Claim C6. In every context, whatever its pattern set and its chain of parents,
  \<open>ignored\<close> is false on \<open>.git\<close> and false on \<open>node_modules\<close>.
\<close>

theorem ignored_structural_exceptions:
  "ignored c (js ''.git'') = False \<and> ignored c (js ''node_modules'') = False"
  by (cases c) simp

text \<open>
  Claim C1. For a path other than \<open>.git\<close> and \<open>node_modules\<close>: when the context has a
  pattern set that matches the path, \<open>ignored\<close> is true, whatever the parent is;
  when there is no match (or no pattern set) and no parent, it is false; otherwise
  it is the parent's answer on \<open>folder + path\<close>.
\<close>

theorem ignored_resolution:
  assumes "p \<noteq> js ''.git''" and "p \<noteq> js ''node_modules''"
  shows "((\<exists>r. rules c = Some r \<and> r p) \<longrightarrow>
            (\<forall>par'. ignored (Context (folder c) (fullPath c) par' (rules c)) p = True))
    \<and> (\<not> (\<exists>r. rules c = Some r \<and> r p) \<and> parent c = None \<longrightarrow> ignored c p = False)
    \<and> (\<forall>pc. \<not> (\<exists>r. rules c = Some r \<and> r p) \<and> parent c = Some pc
          \<longrightarrow> ignored c p = ignored pc (folder c @ p))"
  using assms by (cases c) (auto split: option.splits)

theorem ignored_resolution_witness:
  "js ''secret.ts'' \<noteq> js ''.git'' \<and> js ''secret.ts'' \<noteq> js ''node_modules''
   \<and> ignored (Context (js ''sub/'') (js ''./sub/'')
         (Some (Context (js ''./'') (js ''./'') None (Some (\<lambda>p. p = js ''sub/secret.ts''))))
         None) (js ''secret.ts'')
     = ignored (Context (js ''./'') (js ''./'') None (Some (\<lambda>p. p = js ''sub/secret.ts'')))
         (js ''sub/secret.ts'')
   \<and> ignored (Context (js ''./'') (js ''./'') None (Some (\<lambda>p. p = js ''sub/secret.ts'')))
         (js ''sub/secret.ts'')"
proof -
  have ne: "js ''secret.ts'' \<noteq> js ''.git''" "js ''secret.ts'' \<noteq> js ''node_modules''"
    by (simp_all add: js_def)
  have up: "ignored (Context (js ''sub/'') (js ''./sub/'')
         (Some (Context (js ''./'') (js ''./'') None (Some (\<lambda>p. p = js ''sub/secret.ts''))))
         None) (js ''secret.ts'')
     = ignored (Context (js ''./'') (js ''./'') None (Some (\<lambda>p. p = js ''sub/secret.ts'')))
         (js ''sub/'' @ js ''secret.ts'')"
    using ignored_resolution [OF ne,
        of "Context (js ''sub/'') (js ''./sub/'')
         (Some (Context (js ''./'') (js ''./'') None (Some (\<lambda>p. p = js ''sub/secret.ts''))))
         None"]
    by simp
  have cat: "js ''sub/'' @ js ''secret.ts'' = js ''sub/secret.ts''"
    by (simp add: js_def)
  have top: "ignored (Context (js ''./'') (js ''./'') None (Some (\<lambda>p. p = js ''sub/secret.ts'')))
         (js ''sub/secret.ts'')"
    by (simp add: js_def)
  show ?thesis
    using ne up top unfolding cat by simp
qed

section \<open>Properties of the tree walker\<close>

subsection \<open>One iteration of the loop\<close>

lemma loop_skip:
  "skipped p \<Longrightarrow> barrel_loop c ctx ((p, n) # rest) inc = apsnd (Cons (p, n)) (barrel_loop c ctx rest inc)"
  by (auto simp: skipped_def)

lemma loop_Dir:
  "\<not> skipped p \<Longrightarrow> barrel_loop c ctx ((p, Dir d) # rest) inc =
     (case barrel c (new_Context (p @ js ''/'') (Some ctx)) (Dir d) of
        (Inl e, n') \<Rightarrow> (Inl e, (p, n') # rest)
      | (Inr entry, n') \<Rightarrow>
          apsnd (Cons (p, n'))
            (barrel_loop c ctx rest
               (if entry
                then inc @ [\<lparr>namespace = Namespace p, path = p @ js ''/mod.ts''\<rparr>]
                else inc)))"
  by (simp add: skipped_def del: barrel.simps)

lemma loop_File:
  "\<not> skipped p \<Longrightarrow> barrel_loop c ctx ((p, File s) # rest) inc =
     apsnd (Cons (p, File s))
       (barrel_loop c ctx rest
          (if ignored ctx p then inc else inc @ [\<lparr>namespace = Namespace p, path = p\<rparr>]))"
  by (simp add: skipped_def)

lemma loop_Other:
  "\<not> skipped p \<Longrightarrow> barrel_loop c ctx ((p, Other) # rest) inc =
     apsnd (Cons (p, Other)) (barrel_loop c ctx rest inc)"
  by (simp add: skipped_def)

lemmas loop_cases = loop_skip loop_Dir loop_File loop_Other

declare barrel_loop.simps(2) [simp del]

lemma loop_names: "map fst (snd (barrel_loop c ctx es inc)) = map fst es"
proof (induction es arbitrary: inc)
  case Nil
  then show ?case by simp
next
  case (Cons a es)
  obtain p n where a: "a = (p, n)" by (cases a)
  show ?case
  proof (cases "skipped p")
    case True
    then show ?thesis using Cons.IH by (simp add: a loop_cases)
  next
    case False
    then show ?thesis
      using Cons.IH
      by (cases n) (simp_all add: a loop_cases split: prod.splits sum.splits del: barrel.simps)
  qed
qed

lemma loop_keeps_skipped:
  "skipped k \<Longrightarrow> map_of (snd (barrel_loop c ctx es inc)) k = map_of es k"
proof (induction es arbitrary: inc)
  case Nil
  then show ?case by simp
next
  case (Cons a es)
  obtain p n where a: "a = (p, n)" by (cases a)
  show ?case
  proof (cases "skipped p")
    case True
    then show ?thesis using Cons by (simp add: a loop_cases)
  next
    case False
    with Cons.prems have "p \<noteq> k" by auto
    then show ?thesis
      using Cons False
      by (cases n) (simp_all add: a loop_cases split: prod.splits sum.splits del: barrel.simps)
  qed
qed


lemma barrel_Dir: "\<exists>es'. snd (barrel c ctx (Dir es)) = Dir es'"
  by (auto simp: barrel_write_def split: prod.splits sum.splits)

lemma writeFile_lookup: "writeFile es k d = Inr es2 \<Longrightarrow> map_of es2 k = Some (File d)"
  by (induction es arbitrary: es2) (auto split: if_splits node.splits sum.splits)

lemma writeFile_other:
  "writeFile es k d = Inr es2 \<Longrightarrow> k' \<noteq> k \<Longrightarrow> map_of es2 k' = map_of es k'"
  by (induction es arbitrary: es2) (auto split: if_splits node.splits sum.splits)

lemma writeFile_idem: "writeFile es k d = Inr es2 \<Longrightarrow> writeFile es2 k d = Inr es2"
  by (induction es arbitrary: es2) (auto split: if_splits node.splits sum.splits)

lemma load_rules_cong:
  "map_of es (js ''.barrelignore'') = map_of es' (js ''.barrelignore'')
   \<Longrightarrow> load_rules c ctx es = load_rules c ctx es'"
  by (simp add: load_rules_def WeakRead_def readFile_def cong: option.case_cong)

lemma skipped_rulefile: "skipped (js ''.barrelignore'')"
  by (simp add: skipped_def startsWith_def js_def)

lemma skipped_modts: "skipped (js ''mod.ts'')"
  by (simp add: skipped_def)

lemma rulefile_not_modts: "js ''.barrelignore'' \<noteq> js ''mod.ts''"
  by (simp add: js_def)

lemma loop_after_write:
  assumes "skipped k"
  shows "writeFile es k d = Inr es2 \<Longrightarrow> barrel_loop c ctx es inc = (Inr r, es)
    \<Longrightarrow> barrel_loop c ctx es2 inc = (Inr r, es2)"
proof (induction es arbitrary: es2 inc)
  case Nil
  then show ?case using assms by (auto simp: loop_cases)
next
  case (Cons a es)
  obtain p n where a: "a = (p, n)" by (cases a)
  show ?case
  proof (cases "p = k")
    case True
    with Cons.prems a obtain s where n: "n = File s" and es2: "es2 = (k, File d) # es"
      by (auto split: node.splits)
    from Cons.prems(2) have "barrel_loop c ctx es inc = (Inr r, es)"
      using assms True a by (cases "barrel_loop c ctx es inc") (simp add: loop_cases)
    then show ?thesis
      using assms es2 by (simp add: loop_cases)
  next
    case False
    with Cons.prems a obtain es2' where w: "writeFile es k d = Inr es2'"
      and es2: "es2 = (p, n) # es2'"
      by (auto split: sum.splits)
    show ?thesis
    proof (cases "skipped p")
      case True
      from Cons.prems(2) have "barrel_loop c ctx es inc = (Inr r, es)"
        using True a by (cases "barrel_loop c ctx es inc") (simp add: loop_cases)
      from Cons.IH [OF w this] show ?thesis
        using True es2 by (simp add: loop_cases)
    next
      case ns: False
      show ?thesis
      proof (cases n)
        case (File s)
        let ?inc = "if ignored ctx p then inc else inc @ [\<lparr>namespace = Namespace p, path = p\<rparr>]"
        from Cons.prems(2) have "barrel_loop c ctx es ?inc = (Inr r, es)"
          using ns a File by (cases "barrel_loop c ctx es ?inc") (simp add: loop_cases)
        from Cons.IH [OF w this] show ?thesis
          using ns es2 File by (simp add: loop_cases)
      next
        case (Dir x)
        obtain x' n' where b: "barrel c (new_Context (p @ js ''/'') (Some ctx)) (Dir x) = (x', n')"
          by (cases "barrel c (new_Context (p @ js ''/'') (Some ctx)) (Dir x)")
        from Cons.prems(2) obtain e where x': "x' = Inr e"
          using ns a Dir b by (cases x') (simp_all add: loop_cases del: barrel.simps)
        let ?inc = "if e then inc @ [\<lparr>namespace = Namespace p, path = p @ js ''/mod.ts''\<rparr>] else inc"
        from Cons.prems(2) have n': "n' = Dir x" and "barrel_loop c ctx es ?inc = (Inr r, es)"
          using ns a Dir b x' by (cases "barrel_loop c ctx es ?inc"; simp add: loop_cases del: barrel.simps)+
        from Cons.IH [OF w this(2)] show ?thesis
          using ns es2 Dir b x' n' by (simp add: loop_cases del: barrel.simps)
      next
        case Other
        from Cons.prems(2) have "barrel_loop c ctx es inc = (Inr r, es)"
          using ns a Other by (cases "barrel_loop c ctx es inc") (simp add: loop_cases)
        from Cons.IH [OF w this] show ?thesis
          using ns es2 Other by (simp add: loop_cases)
      qed
    qed
  qed
qed

lemma loop_fixed:
  assumes "\<And>p n ctx'. (p, n) \<in> set es \<Longrightarrow> barrel c ctx' (snd (barrel c ctx' n)) = barrel c ctx' n"
  shows "barrel_loop c ctx (snd (barrel_loop c ctx es inc)) inc = barrel_loop c ctx es inc"
  using assms
proof (induction es arbitrary: inc)
  case Nil
  then show ?case by simp
next
  case (Cons a es)
  obtain p n where a: "a = (p, n)" by (cases a)
  have IH: "barrel_loop c ctx (snd (barrel_loop c ctx es inc)) inc = barrel_loop c ctx es inc"
    for inc
  proof (rule Cons.IH)
    fix p n ctx'
    assume "(p, n) \<in> set es"
    then show "barrel c ctx' (snd (barrel c ctx' n)) = barrel c ctx' n"
      using Cons.prems [of p n ctx'] by simp
  qed
  show ?case
  proof (cases "skipped p")
    case True
    then show ?thesis using IH by (simp add: a loop_cases)
  next
    case ns: False
    show ?thesis
    proof (cases n)
      case (File s)
      then show ?thesis using ns IH by (simp add: a loop_cases)
    next
      case Other
      then show ?thesis using ns IH by (simp add: a loop_cases)
    next
      case (Dir x)
      let ?ch = "new_Context (p @ js ''/'') (Some ctx)"
      obtain r n' where b: "barrel c ?ch (Dir x) = (r, n')"
        by (cases "barrel c ?ch (Dir x)")
      obtain x' where n': "n' = Dir x'"
        using barrel_Dir [of c ?ch x] b by auto
      have "barrel c ?ch (snd (barrel c ?ch n)) = barrel c ?ch n"
        using Cons.prems [of p n ?ch] a by simp
      then have b': "barrel c ?ch (Dir x') = (r, Dir x')"
        using b n' Dir by simp
      show ?thesis
      proof (cases r)
        case (Inl e)
        then show ?thesis
          using ns Dir b b' n' by (simp add: a loop_cases del: barrel.simps)
      next
        case (Inr e)
        then show ?thesis
          using ns Dir b b' n' IH by (simp add: a loop_cases del: barrel.simps)
      qed
    qed
  qed
qed

lemma barrel_fixed: "barrel c ctx (snd (barrel c ctx n)) = barrel c ctx n"
proof (induction n arbitrary: ctx)
  case (File s)
  then show ?case by simp
next
  case Other
  then show ?case by simp
next
  case (Dir es)
  let ?ctx = "load_rules c ctx es"
  obtain r es' where l: "barrel_loop c ?ctx es [] = (r, es')"
    by (cases "barrel_loop c ?ctx es []")
  have "barrel_loop c ?ctx (snd (barrel_loop c ?ctx es [])) [] = barrel_loop c ?ctx es []"
  proof (rule loop_fixed)
    fix p n ctx'
    assume "(p, n) \<in> set es"
    then show "barrel c ctx' (snd (barrel c ctx' n)) = barrel c ctx' n"
      using Dir.IH [of "(p, n)" n ctx'] by simp
  qed
  then have l': "barrel_loop c ?ctx es' [] = (r, es')"
    using l by simp
  have rf: "map_of es' (js ''.barrelignore'') = map_of es (js ''.barrelignore'')"
    using loop_keeps_skipped [OF skipped_rulefile, of c ?ctx es "[]"] l by simp
  then have ctx': "load_rules c ctx es' = ?ctx"
    by (rule load_rules_cong)
  show ?case
  proof (cases r)
    case (Inl e)
    then show ?thesis
      using l l' ctx' by (simp add: barrel_write_def)
  next
    case (Inr inc)
    show ?thesis
    proof (cases "length inc < 1")
      case True
      then show ?thesis
        using Inr l l' ctx' by (simp add: barrel_write_def)
    next
      case False
      show ?thesis
      proof (cases "writeFile es' (js ''mod.ts'') (render inc)")
        case (Inl e)
        then show ?thesis
          using Inr False l l' ctx' by (simp add: barrel_write_def)
      next
        case w: (Inr es'')
        have "map_of es'' (js ''.barrelignore'') = map_of es' (js ''.barrelignore'')"
          using writeFile_other [OF w rulefile_not_modts] .
        then have c2: "load_rules c ctx es'' = ?ctx"
          using ctx' load_rules_cong by metis
        have l2: "barrel_loop c ?ctx es'' [] = (Inr inc, es'')"
          using loop_after_write [OF skipped_modts w] l' Inr by simp
        have w2: "writeFile es'' (js ''mod.ts'') (render inc) = Inr es''"
          using writeFile_idem [OF w] .
        show ?thesis
          using Inr False l w c2 l2 w2 by (simp add: barrel_write_def)
      qed
    qed
  qed
qed

subsection \<open>What the loop leaves alone\<close>

lemma render_concat: "render inc = concat (map export_line inc)"
proof -
  have "foldl (\<lambda>source file. source @ export_line file) a inc = a @ concat (map export_line inc)" for a
    by (induction inc arbitrary: a) simp_all
  then show ?thesis
    by (simp add: render_def export_line_def)
qed

lemma loop_keeps_files:
  "(\<forall>d. map_of es k \<noteq> Some (Dir d)) \<Longrightarrow> map_of (snd (barrel_loop c ctx es inc)) k = map_of es k"
proof (induction es arbitrary: inc)
  case Nil
  then show ?case by simp
next
  case (Cons a es)
  obtain p n where a: "a = (p, n)" by (cases a)
  show ?case
  proof (cases "skipped p")
    case True
    then show ?thesis using Cons by (auto simp add: a loop_cases split: if_splits)
  next
    case False
    then show ?thesis
      using Cons
      by (cases n)
         (auto simp add: a loop_cases split: prod.splits sum.splits if_splits
            simp del: barrel.simps)
  qed
qed

lemma loop_without:
  assumes "skipped k"
  shows "barrel_loop c ctx (without k es) inc = apsnd (without k) (barrel_loop c ctx es inc)"
proof (induction es arbitrary: inc)
  case Nil
  then show ?case by (simp add: without_def)
next
  case (Cons a es)
  obtain p n where a: "a = (p, n)" by (cases a)
  have IH: "barrel_loop c ctx (without k es) inc' = apsnd (without k) (barrel_loop c ctx es inc')" for inc'
    by (rule Cons.IH)
  show ?case
  proof (cases "p = k")
    case True
    then show ?thesis
      using assms IH [of inc]
      by (cases "barrel_loop c ctx es inc") (simp add: a loop_cases without_def)
  next
    case pk: False
    show ?thesis
    proof (cases "skipped p")
      case True
      then show ?thesis
        using pk IH [of inc]
        by (cases "barrel_loop c ctx es inc") (simp add: a loop_cases without_def)
    next
      case ns: False
      show ?thesis
      proof (cases n)
        case (File s)
        let ?inc = "if ignored ctx p then inc else inc @ [\<lparr>namespace = Namespace p, path = p\<rparr>]"
        show ?thesis
          using pk ns File IH [of ?inc]
          by (cases "barrel_loop c ctx es ?inc") (simp add: a loop_cases without_def)
      next
        case Other
        then show ?thesis
          using pk ns IH [of inc]
          by (cases "barrel_loop c ctx es inc") (simp add: a loop_cases without_def)
      next
        case (Dir d)
        let ?ch = "new_Context (p @ js ''/'') (Some ctx)"
        obtain r n' where b: "barrel c ?ch (Dir d) = (r, n')"
          by (cases "barrel c ?ch (Dir d)")
        show ?thesis
        proof (cases r)
          case (Inl e)
          then show ?thesis
            using pk ns Dir b by (simp add: a loop_cases without_def del: barrel.simps)
        next
          case (Inr e)
          let ?inc = "if e then inc @ [\<lparr>namespace = Namespace p, path = p @ js ''/mod.ts''\<rparr>] else inc"
          show ?thesis
            using pk ns Dir b Inr IH [of ?inc]
            by (cases "barrel_loop c ctx es ?inc") (simp add: a loop_cases without_def del: barrel.simps)
        qed
      qed
    qed
  qed
qed

lemma writeFile_without:
  "k \<noteq> name \<Longrightarrow> writeFile (without k es) name d = map_sum id (without k) (writeFile es name d)"
  by (induction es) (auto simp: without_def split: node.splits sum.splits)

lemma readFile_without: "readFile (without k es) k = Inl ENOENT"
proof -
  have "map_of (without k es) k = None"
    by (induction es) (auto simp: without_def)
  then show ?thesis by (simp add: readFile_def)
qed

lemma load_rules_failed: "readFile es (js ''.barrelignore'') = Inl e \<Longrightarrow> load_rules c ctx es = ctx"
  by (simp add: load_rules_def WeakRead_def split: option.splits)

lemma barrel_write_without:
  "k \<noteq> js ''mod.ts'' \<Longrightarrow> barrel_write (apsnd (without k) lr) = apsnd (dir_without k) (barrel_write lr)"
  by (cases lr) (auto simp: barrel_write_def dir_without_def writeFile_without split: sum.splits)

subsection \<open>A walked tree, listed in another order\<close>

lemma loop_pos:
  "list_all2 (\<lambda>a b. fst a = fst b \<and> (skipped (fst a) \<longrightarrow> b = a)) es
     (snd (barrel_loop c ctx es inc))"
proof (induction es arbitrary: inc)
  case Nil
  then show ?case by simp
next
  case (Cons a es)
  obtain p n where a: "a = (p, n)" by (cases a)
  have refl: "list_all2 (\<lambda>a b. fst a = fst b \<and> (skipped (fst a) \<longrightarrow> b = a)) es es"
    by (simp add: list_all2_same)
  show ?case
  proof (cases "skipped p")
    case True
    then show ?thesis using Cons.IH by (simp add: a loop_cases)
  next
    case False
    then show ?thesis
      using Cons.IH refl
      by (cases n)
         (simp_all add: a loop_cases split: prod.splits sum.splits del: barrel.simps)
  qed
qed

lemma pos_without_eq:
  "list_all2 (\<lambda>a b. fst a = fst b \<and> (skipped (fst a) \<longrightarrow> b = a)) xs ys
   \<Longrightarrow> skipped k \<Longrightarrow> without k xs = without k ys \<Longrightarrow> xs = ys"
  by (induction xs ys rule: list_all2_induct) (auto simp: without_def split: if_splits)

lemma loop_fixed_from_without:
  assumes "skipped k" and "barrel_loop c ctx (without k es) inc = (lr, without k es)"
  shows "barrel_loop c ctx es inc = (lr, es)"
proof -
  obtain lr' es' where l: "barrel_loop c ctx es inc = (lr', es')"
    by (cases "barrel_loop c ctx es inc")
  from loop_without [OF assms(1), of c ctx es inc] assms(2) l
  have "lr' = lr" and w: "without k es = without k es'"
    by simp_all
  moreover have "es = es'"
    using pos_without_eq [OF _ assms(1) w] loop_pos [of es c ctx inc] l by simp
  ultimately show ?thesis using l by simp
qed

lemma writeFile_Inl_iff:
  "writeFile es k d = Inl e \<longleftrightarrow>
     (case map_of es k of
        Some (Dir x) \<Rightarrow> e = EISDIR
      | Some Other \<Rightarrow> e = ENXIO
      | Some (File s) \<Rightarrow> False
      | None \<Rightarrow> False)"
  by (induction es) (auto split: node.splits sum.splits option.splits)

lemma writeFile_same: "map_of es k = Some (File d) \<Longrightarrow> writeFile es k d = Inr es"
  by (induction es) (auto split: if_splits)

lemma writeFile_fixed_eq:
  "writeFile es' k d = Inr es \<Longrightarrow> map fst es' = map fst es \<Longrightarrow> map_of es' k = map_of es k
   \<Longrightarrow> es' = es"
proof (induction es' arbitrary: es)
  case Nil
  then show ?case by auto
next
  case (Cons a es')
  then show ?case
    by (cases a) (auto split: if_splits node.splits sum.splits)
qed

lemma stable_Dir:
  assumes "barrel c ctx (Dir es) = (r, Dir es)"
  shows "\<exists>lr. barrel_loop c (load_rules c ctx es) es [] = (lr, es)
            \<and> barrel_write (lr, es) = (r, Dir es)"
proof -
  let ?ctx = "load_rules c ctx es"
  obtain lr es' where l: "barrel_loop c ?ctx es [] = (lr, es')"
    by (cases "barrel_loop c ?ctx es []")
  have names: "map fst es' = map fst es"
    using loop_names [of c ?ctx es "[]"] l by simp
  have m: "map_of es' (js ''mod.ts'') = map_of es (js ''mod.ts'')"
    using loop_keeps_skipped [OF skipped_modts, of c ?ctx es "[]"] l by simp
  have w: "barrel_write (lr, es') = (r, Dir es)"
    using assms l by simp
  have "es' = es"
  proof (cases lr)
    case (Inl e)
    then show ?thesis using w by (simp add: barrel_write_def)
  next
    case (Inr inc)
    show ?thesis
    proof (cases "length inc < 1")
      case True
      then show ?thesis using w Inr by (simp add: barrel_write_def)
    next
      case False
      show ?thesis
      proof (cases "writeFile es' (js ''mod.ts'') (render inc)")
        case (Inl e)
        then show ?thesis using w Inr False by (simp add: barrel_write_def)
      next
        case wr: (Inr es'')
        then have "es'' = es" using w Inr False by (simp add: barrel_write_def)
        then show ?thesis using writeFile_fixed_eq [OF wr] names m by simp
      qed
    qed
  qed
  then show ?thesis using l w by simp
qed

lemma similar_File: "similar n1 n2 \<Longrightarrow> (n1 = File s) = (n2 = File s)"
  by (cases n1; cases n2) auto

lemma similar_Other: "similar n1 n2 \<Longrightarrow> (n1 = Other) = (n2 = Other)"
  by (cases n1; cases n2) auto

lemma similar_Dir: "similar (Dir d1) n2 \<Longrightarrow> \<exists>d2. n2 = Dir d2"
  by (cases n2) auto

lemma readFile_cases:
  "readFile ((k', n) # es) k =
     (if k' = k then (case n of File s \<Rightarrow> Inr s | Dir x \<Rightarrow> Inl EISDIR | Other \<Rightarrow> Inl ENXIO)
      else readFile es k)"
  by (simp add: readFile_def)

lemma readFile_same_listing:
  "same_listing xs ys \<Longrightarrow> readFile xs k = readFile ys k"
proof (induction xs arbitrary: ys)
  case Nil
  then show ?case by (cases ys) simp_all
next
  case (Cons a xs)
  obtain k1 n1 where a: "a = (k1, n1)" by (cases a)
  from Cons.prems a obtain n2 r2 where ys: "ys = (k1, n2) # r2"
    and sim: "similar n1 n2" and rest: "same_listing xs r2"
    by (cases ys) auto
  have "(case n1 of File s \<Rightarrow> Inr s | Dir x \<Rightarrow> Inl EISDIR | Other \<Rightarrow> Inl ENXIO)
      = (case n2 of File s \<Rightarrow> Inr s | Dir x \<Rightarrow> Inl EISDIR | Other \<Rightarrow> Inl ENXIO)"
    using sim by (cases n1; cases n2) auto
  then show ?case
    using Cons.IH [OF rest] by (simp add: a ys readFile_cases)
qed

lemma readFile_without_other: "k \<noteq> m \<Longrightarrow> readFile (without m es) k = readFile es k"
proof -
  assume "k \<noteq> m"
  then have "map_of (without m es) k = map_of es k"
    by (induction es) (auto simp: without_def)
  then show ?thesis by (simp add: readFile_def)
qed

lemma load_rules_readFile_cong:
  "readFile es (js ''.barrelignore'') = readFile es' (js ''.barrelignore'')
   \<Longrightarrow> load_rules c ctx es = load_rules c ctx es'"
  by (simp add: load_rules_def WeakRead_def cong: option.case_cong)

lemma barrel_write_transfer:
  assumes "barrel_write (lr, es1) = (r, Dir es1)"
    and "map_of es1 (js ''mod.ts'') = map_of es2 (js ''mod.ts'')"
  shows "barrel_write (lr, es2) = (r, Dir es2)"
proof (cases lr)
  case (Inl e)
  then show ?thesis using assms(1) by (simp add: barrel_write_def)
next
  case (Inr inc)
  show ?thesis
  proof (cases "length inc < 1")
    case True
    then show ?thesis using assms(1) Inr by (simp add: barrel_write_def)
  next
    case False
    show ?thesis
    proof (cases "writeFile es1 (js ''mod.ts'') (render inc)")
      case (Inl e)
      then have "writeFile es2 (js ''mod.ts'') (render inc) = Inl e"
        using assms(2) by (simp add: writeFile_Inl_iff)
      then show ?thesis using assms(1) Inr False Inl by (simp add: barrel_write_def)
    next
      case wr: (Inr es'')
      then have e: "es'' = es1" and r: "r = Inr True"
        using assms(1) Inr False by (simp_all add: barrel_write_def)
      have "map_of es1 (js ''mod.ts'') = Some (File (render inc))"
        using writeFile_lookup [OF wr] e by simp
      then have "writeFile es2 (js ''mod.ts'') (render inc) = Inr es2"
        using assms(2) by (simp add: writeFile_same)
      then show ?thesis using Inr False r by (simp add: barrel_write_def)
    qed
  qed
qed

lemma loop_transfer:
  assumes "\<And>p n1 n2 ctx' r'. (p, n1) \<in> set xs1 \<Longrightarrow> barrel c ctx' n1 = (r', n1)
             \<Longrightarrow> similar n1 n2 \<Longrightarrow> barrel c ctx' n2 = (r', n2)"
  shows "same_listing xs1 xs2 \<Longrightarrow> barrel_loop c ctx xs1 inc = (lr, xs1)
    \<Longrightarrow> barrel_loop c ctx xs2 inc = (lr, xs2)"
  using assms
proof (induction xs1 arbitrary: xs2 inc)
  case Nil
  then show ?case by (cases xs2) simp_all
next
  case (Cons a xs1)
  obtain p n1 where a: "a = (p, n1)" by (cases a)
  from Cons.prems(1) a obtain n2 r2 where xs2: "xs2 = (p, n2) # r2"
    and sim: "similar n1 n2" and rest: "same_listing xs1 r2"
    by (cases xs2) auto
  have IH: "barrel_loop c ctx xs1 inc' = (lr, xs1) \<Longrightarrow> barrel_loop c ctx r2 inc' = (lr, r2)"
    for inc'
  proof (rule Cons.IH [OF rest])
    fix p' n1' n2' ctx' r'
    assume "(p', n1') \<in> set xs1" "barrel c ctx' n1' = (r', n1')" "similar n1' n2'"
    then show "barrel c ctx' n2' = (r', n2')"
      using Cons.prems(3) [of p' n1' ctx' r' n2'] by simp
  qed
  have l: "barrel_loop c ctx ((p, n1) # xs1) inc = (lr, (p, n1) # xs1)"
    using Cons.prems(2) a by simp
  show ?case
  proof (cases "skipped p")
    case True
    from l have "barrel_loop c ctx xs1 inc = (lr, xs1)"
      using True by (cases "barrel_loop c ctx xs1 inc") (simp add: loop_cases)
    from IH [OF this] show ?thesis
      using True by (simp add: xs2 loop_cases)
  next
    case ns: False
    show ?thesis
    proof (cases n1)
      case (File s)
      then have n2: "n2 = File s" using sim by simp
      let ?inc = "if ignored ctx p then inc else inc @ [\<lparr>namespace = Namespace p, path = p\<rparr>]"
      from l have "barrel_loop c ctx xs1 ?inc = (lr, xs1)"
        using ns File by (cases "barrel_loop c ctx xs1 ?inc") (simp add: loop_cases)
      from IH [OF this] show ?thesis
        using ns n2 by (simp add: xs2 loop_cases)
    next
      case Other
      then have n2: "n2 = Other" using sim by simp
      from l have "barrel_loop c ctx xs1 inc = (lr, xs1)"
        using ns Other by (cases "barrel_loop c ctx xs1 inc") (simp add: loop_cases)
      from IH [OF this] show ?thesis
        using ns n2 by (simp add: xs2 loop_cases)
    next
      case (Dir d1)
      then obtain d2 where n2: "n2 = Dir d2" using sim similar_Dir by blast
      let ?ch = "new_Context (p @ js ''/'') (Some ctx)"
      obtain x n' where b: "barrel c ?ch (Dir d1) = (x, n')"
        by (cases "barrel c ?ch (Dir d1)")
      show ?thesis
      proof (cases x)
        case (Inl e)
        from l have lr: "lr = Inl e" and n': "n' = Dir d1"
          using ns Dir b Inl by (simp_all add: loop_cases del: barrel.simps)
        have "barrel c ?ch (Dir d2) = (Inl e, Dir d2)"
          using Cons.prems(3) [of p n1 ?ch "Inl e" n2] a Dir n2 b Inl n' sim by simp
        then show ?thesis
          using ns n2 lr by (simp add: xs2 loop_cases del: barrel.simps)
      next
        case (Inr e)
        let ?inc = "if e then inc @ [\<lparr>namespace = Namespace p, path = p @ js ''/mod.ts''\<rparr>] else inc"
        from l have n': "n' = Dir d1" and "barrel_loop c ctx xs1 ?inc = (lr, xs1)"
          using ns Dir b Inr
          by (cases "barrel_loop c ctx xs1 ?inc"; simp add: loop_cases del: barrel.simps)+
        from IH [OF this(2)] have t: "barrel_loop c ctx r2 ?inc = (lr, r2)" .
        have "barrel c ?ch (Dir d2) = (Inr e, Dir d2)"
          using Cons.prems(3) [of p n1 ?ch "Inr e" n2] a Dir n2 b Inr n' sim by simp
        then show ?thesis
          using ns n2 t by (simp add: xs2 loop_cases del: barrel.simps)
      qed
    qed
  qed
qed

lemma barrel_transfer:
  "barrel c ctx n1 = (r, n1) \<Longrightarrow> similar n1 n2 \<Longrightarrow> barrel c ctx n2 = (r, n2)"
proof (induction n1 arbitrary: n2 ctx r)
  case (File s)
  then show ?case by simp
next
  case Other
  then show ?case by simp
next
  case (Dir es1)
  from Dir.prems(2) obtain es2 where n2: "n2 = Dir es2"
    using similar_Dir by blast
  from Dir.prems(2) n2
  have m: "map_of es1 (js ''mod.ts'') = map_of es2 (js ''mod.ts'')"
    and sl: "same_listing (without (js ''mod.ts'') es1) (without (js ''mod.ts'') es2)"
    by simp_all
  let ?ctx = "load_rules c ctx es1"
  from stable_Dir [OF Dir.prems(1)] obtain lr where
    l: "barrel_loop c ?ctx es1 [] = (lr, es1)" and w: "barrel_write (lr, es1) = (r, Dir es1)"
    by blast
  have "readFile es1 (js ''.barrelignore'') = readFile es2 (js ''.barrelignore'')"
    using readFile_same_listing [OF sl, of "js ''.barrelignore''"]
    by (simp add: readFile_without_other [OF rulefile_not_modts])
  then have ctx2: "load_rules c ctx es2 = ?ctx"
    using load_rules_readFile_cong by metis
  have "barrel_loop c ?ctx (without (js ''mod.ts'') es1) [] = (lr, without (js ''mod.ts'') es1)"
    using loop_without [OF skipped_modts, of c ?ctx es1 "[]"] l by simp
  moreover have "barrel c ctx' n1' = (r', n1') \<Longrightarrow> similar n1' n2' \<Longrightarrow> barrel c ctx' n2' = (r', n2')"
    if "(p, n1') \<in> set (without (js ''mod.ts'') es1)" for p n1' n2' ctx' r'
  proof -
    from that have "(p, n1') \<in> set es1" by (simp add: without_def)
    then show "barrel c ctx' n1' = (r', n1') \<Longrightarrow> similar n1' n2' \<Longrightarrow> barrel c ctx' n2' = (r', n2')"
      using Dir.IH [of "(p, n1')" n1' ctx' r' n2'] by simp
  qed
  ultimately have "barrel_loop c ?ctx (without (js ''mod.ts'') es2) [] = (lr, without (js ''mod.ts'') es2)"
    using loop_transfer [OF _ sl] by blast
  then have l2: "barrel_loop c ?ctx es2 [] = (lr, es2)"
    by (rule loop_fixed_from_without [OF skipped_modts])
  show ?case
    using n2 ctx2 l2 barrel_write_transfer [OF w m] by simp
qed

subsection \<open>The example, evaluated\<close>

lemmas walk_eval =
  main_def new_Context_def load_rules_def WeakRead_def readFile_def barrel_write_def
  barrel_loop.simps startsWith_def render_def export_line_def literal_engine_def ident_eval

lemma example_main: "main literal_engine example_tree = (Inr True, example_walked)"
  by (simp add: example_tree_def example_walked_def walk_eval)

subsection \<open>The claims about the walk\<close>

text \<open>
  Claim C9. A second walk from the same root, over the tree the first walk left
  (same files, same rule files, same listing order, and the aggregator files of
  the first walk now in the listings), leaves every file as the first walk left
  it and ends as the first walk ended. This holds for a walk from any context
  and for the program's walk from \<open>./\<close>; and it holds wherever the listings of
  the second walk show the aggregator files of the first: on every tree similar
  to the one the first walk returned, the second walk ends as the first did and
  changes nothing.
\<close>

theorem barrel_idempotent:
  "barrel c ctx (snd (barrel c ctx n)) = barrel c ctx n
   \<and> snd (main c (snd (main c root))) = snd (main c root)
   \<and> (\<forall>n2. similar (snd (barrel c ctx n)) n2 \<longrightarrow>
         barrel c ctx n2 = (fst (barrel c ctx n), n2))
   \<and> (\<forall>root2. similar (snd (main c root)) root2 \<longrightarrow>
         main c root2 = (fst (main c root), root2))"
proof -
  have t: "barrel c' ctx' n2 = (fst (barrel c' ctx' n'), n2)"
    if "similar (snd (barrel c' ctx' n')) n2" for c' ctx' n' n2
  proof (rule barrel_transfer [OF _ that])
    show "barrel c' ctx' (snd (barrel c' ctx' n'))
        = (fst (barrel c' ctx' n'), snd (barrel c' ctx' n'))"
      by (simp add: barrel_fixed)
  qed
  show ?thesis
    by (simp add: main_def barrel_fixed t)
qed

theorem barrel_idempotent_witness:
  "barrel literal_engine (new_Context (js ''./'') None) example_tree = (Inr True, example_walked)
   \<and> similar example_walked example_relisted
   \<and> barrel literal_engine (new_Context (js ''./'') None) example_relisted
        = (Inr True, example_relisted)"
proof -
  have a: "barrel literal_engine (new_Context (js ''./'') None) example_tree
      = (Inr True, example_walked)"
    using example_main by (simp add: main_def)
  have s: "similar example_walked example_relisted"
    by (simp add: example_walked_def example_relisted_def without_def js_def)
  show ?thesis
    using a s
      barrel_idempotent [of literal_engine "new_Context (js ''./'') None" example_tree]
    by simp
qed



text \<open>
  Claim C3. When \<open>barrel\<close> completes normally on a directory, the loop has completed
  with some \<open>includes\<close>. If \<open>includes\<close> is empty, \<open>barrel\<close> returns false and the
  directory is as the loop left it: the same names in the same order, and every
  entry that is not a sub-directory unchanged, so no file was written there. If
  \<open>includes\<close> is not empty, \<open>barrel\<close> returns true and \<open>mod.ts\<close> of the directory is
  a file holding the rendered lines.
\<close>

theorem barrel_output:
  assumes "barrel c ctx (Dir es) = (Inr b, n')"
  shows "\<exists>includes es'.
           barrel_loop c (load_rules c ctx es) es [] = (Inr includes, es')
         \<and> (if includes = []
            then b = False \<and> n' = Dir es' \<and> map fst es' = map fst es
              \<and> (\<forall>k. (\<exists>d. map_of es k = Some (Dir d)) \<or> map_of es' k = map_of es k)
            else b = True
              \<and> (\<exists>es''. writeFile es' (js ''mod.ts'') (render includes) = Inr es''
                    \<and> n' = Dir es''
                    \<and> map_of es'' (js ''mod.ts'') = Some (File (render includes))))"
proof -
  obtain r es' where l: "barrel_loop c (load_rules c ctx es) es [] = (r, es')"
    by (cases "barrel_loop c (load_rules c ctx es) es []")
  from assms l obtain inc where r: "r = Inr inc"
    by (cases r) (auto simp: barrel_write_def)
  have names: "map fst es' = map fst es"
    using loop_names [of c "load_rules c ctx es" es "[]"] l by simp
  have files: "(\<exists>d. map_of es k = Some (Dir d)) \<or> map_of es' k = map_of es k" for k
    using loop_keeps_files [of es k c "load_rules c ctx es" "[]"] l by auto
  show ?thesis
  proof (cases "inc = []")
    case True
    then show ?thesis
      using assms l r names files by (auto simp: barrel_write_def)
  next
    case False
    then show ?thesis
      using assms l r
      by (auto simp: barrel_write_def writeFile_lookup split: sum.splits)
  qed
qed

theorem barrel_output_witness:
  "barrel literal_engine (new_Context (js ''./'') None) example_tree = (Inr True, example_walked)
   \<and> barrel literal_engine (new_Context (js ''./'') None) (Dir []) = (Inr False, Dir [])
   \<and> (\<exists>es''. example_walked = Dir es''
         \<and> map_of es'' (js ''mod.ts'')
            = Some (File (render [\<lparr>namespace = js ''Foo'', path = js ''foo.ts''\<rparr>,
                  \<lparr>namespace = js ''BarBaz'', path = js ''bar-baz.ts''\<rparr>,
                  \<lparr>namespace = js ''Qux'', path = js ''qux/mod.ts''\<rparr>])))"
proof -
  have a: "barrel literal_engine (new_Context (js ''./'') None) example_tree = (Inr True, example_walked)"
    using example_main by (simp add: main_def)
  have b: "barrel literal_engine (new_Context (js ''./'') None) (Dir []) = (Inr False, Dir [])"
    by (simp add: walk_eval)
  have l: "barrel_loop literal_engine
      (load_rules literal_engine (new_Context (js ''./'') None)
        [(js ''foo.ts'', File []), (js ''bar-baz.ts'', File []),
          (js ''qux'', Dir [(js ''a.ts'', File [])])])
      [(js ''foo.ts'', File []), (js ''bar-baz.ts'', File []),
          (js ''qux'', Dir [(js ''a.ts'', File [])])] []
    = (Inr [\<lparr>namespace = js ''Foo'', path = js ''foo.ts''\<rparr>,
                  \<lparr>namespace = js ''BarBaz'', path = js ''bar-baz.ts''\<rparr>,
                  \<lparr>namespace = js ''Qux'', path = js ''qux/mod.ts''\<rparr>],
       [(js ''foo.ts'', File []), (js ''bar-baz.ts'', File []),
          (js ''qux'',
             Dir [(js ''a.ts'', File []),
                  (js ''mod.ts'', File (export_line \<lparr>namespace = js ''A'', path = js ''a.ts''\<rparr>))])])"
    by (simp add: walk_eval)
  show ?thesis
    using a b barrel_output [OF a [unfolded example_tree_def]] unfolding l
    by auto
qed

text \<open>
  Claim C7. Whenever \<open>barrel\<close> writes the aggregator file (it returns true), the
  content of \<open>mod.ts\<close> is the concatenation, in the order of \<open>includes\<close>, of one
  line \<open>export * as <namespace> from './<path>';\<close> with its newline per entry, and
  nothing else.
\<close>

theorem aggregator_content:
  assumes "barrel c ctx (Dir es) = (Inr True, n')"
  shows "\<exists>includes es' es''.
           barrel_loop c (load_rules c ctx es) es [] = (Inr includes, es')
         \<and> writeFile es' (js ''mod.ts'') (concat (map export_line includes)) = Inr es''
         \<and> n' = Dir es''
         \<and> map_of es'' (js ''mod.ts'') = Some (File (concat (map export_line includes)))"
proof -
  obtain r es' where l: "barrel_loop c (load_rules c ctx es) es [] = (r, es')"
    by (cases "barrel_loop c (load_rules c ctx es) es []")
  from assms l obtain inc where r: "r = Inr inc"
    by (cases r) (auto simp: barrel_write_def)
  from assms l r obtain es'' where
    w: "writeFile es' (js ''mod.ts'') (render inc) = Inr es''" and n': "n' = Dir es''"
    by (auto simp: barrel_write_def split: if_splits sum.splits)
  show ?thesis
    using l r w n' writeFile_lookup [OF w] by (simp add: render_concat)
qed

theorem aggregator_content_witness:
  "barrel literal_engine (new_Context (js ''./'') None) example_tree = (Inr True, example_walked)
   \<and> (\<exists>es''. example_walked = Dir es''
         \<and> map_of es'' (js ''mod.ts'')
            = Some (File (export_line \<lparr>namespace = js ''Foo'', path = js ''foo.ts''\<rparr>
                 @ export_line \<lparr>namespace = js ''BarBaz'', path = js ''bar-baz.ts''\<rparr>
                 @ export_line \<lparr>namespace = js ''Qux'', path = js ''qux/mod.ts''\<rparr>)))"
proof -
  have a: "barrel literal_engine (new_Context (js ''./'') None) example_tree = (Inr True, example_walked)"
    using example_main by (simp add: main_def)
  have l: "barrel_loop literal_engine
      (load_rules literal_engine (new_Context (js ''./'') None)
        [(js ''foo.ts'', File []), (js ''bar-baz.ts'', File []),
          (js ''qux'', Dir [(js ''a.ts'', File [])])])
      [(js ''foo.ts'', File []), (js ''bar-baz.ts'', File []),
          (js ''qux'', Dir [(js ''a.ts'', File [])])] []
    = (Inr [\<lparr>namespace = js ''Foo'', path = js ''foo.ts''\<rparr>,
                  \<lparr>namespace = js ''BarBaz'', path = js ''bar-baz.ts''\<rparr>,
                  \<lparr>namespace = js ''Qux'', path = js ''qux/mod.ts''\<rparr>],
       [(js ''foo.ts'', File []), (js ''bar-baz.ts'', File []),
          (js ''qux'',
             Dir [(js ''a.ts'', File []),
                  (js ''mod.ts'', File (export_line \<lparr>namespace = js ''A'', path = js ''a.ts''\<rparr>))])])"
    by (simp add: walk_eval)
  show ?thesis
    using a aggregator_content [OF a [unfolded example_tree_def]] unfolding l
    by auto
qed

text \<open>
  Claim C8. When reading \<open>.barrelignore\<close> of a directory fails, for whatever reason,
  the failure is not raised: the context is left as it was (its pattern set stays
  unset), \<open>barrel\<close> is the loop and the write under that unchanged context, and the
  outcome and every file are those of the walk of the same directory without a
  \<open>.barrelignore\<close> entry.
\<close>

theorem rule_file_failure_is_soft:
  assumes "readFile es (js ''.barrelignore'') = Inl e"
  shows "load_rules c ctx es = ctx
    \<and> barrel c ctx (Dir es) = barrel_write (barrel_loop c ctx es [])
    \<and> barrel c ctx (Dir (without (js ''.barrelignore'') es))
        = apsnd (dir_without (js ''.barrelignore'')) (barrel c ctx (Dir es))"
proof -
  have 1: "load_rules c ctx es = ctx"
    using assms by (rule load_rules_failed)
  have 2: "load_rules c ctx (without (js ''.barrelignore'') es) = ctx"
    using readFile_without by (rule load_rules_failed)
  show ?thesis
    by (simp add: 1 2 loop_without [OF skipped_rulefile] barrel_write_without [OF rulefile_not_modts])
qed

theorem rule_file_failure_is_soft_witness:
  "readFile [(js ''.barrelignore'', Dir []), (js ''a.ts'', File [])] (js ''.barrelignore'')
     = Inl EISDIR
   \<and> barrel literal_engine (new_Context (js ''./'') None)
        (Dir [(js ''.barrelignore'', Dir []), (js ''a.ts'', File [])])
     = (Inr True,
        Dir [(js ''.barrelignore'', Dir []), (js ''a.ts'', File []),
             (js ''mod.ts'', File (export_line \<lparr>namespace = js ''A'', path = js ''a.ts''\<rparr>))])
   \<and> barrel literal_engine (new_Context (js ''./'') None) (Dir [(js ''a.ts'', File [])])
     = (Inr True,
        Dir [(js ''a.ts'', File []),
             (js ''mod.ts'', File (export_line \<lparr>namespace = js ''A'', path = js ''a.ts''\<rparr>))])"
proof -
  have h: "readFile [(js ''.barrelignore'', Dir []), (js ''a.ts'', File [])] (js ''.barrelignore'')
     = Inl EISDIR"
    by (simp add: readFile_def)
  have w: "without (js ''.barrelignore'') [(js ''.barrelignore'', Dir []), (js ''a.ts'', File [])]
     = [(js ''a.ts'', File [])]"
    by (simp add: without_def js_def)
  have l: "barrel_loop literal_engine (new_Context (js ''./'') None)
      [(js ''.barrelignore'', Dir []), (js ''a.ts'', File [])] []
    = (Inr [\<lparr>namespace = js ''A'', path = js ''a.ts''\<rparr>],
       [(js ''.barrelignore'', Dir []), (js ''a.ts'', File [])])"
    by (simp add: walk_eval)
  have d: "dir_without (js ''.barrelignore'')
      (Dir [(js ''.barrelignore'', Dir []), (js ''a.ts'', File []),
             (js ''mod.ts'', File (export_line \<lparr>namespace = js ''A'', path = js ''a.ts''\<rparr>))])
    = Dir [(js ''a.ts'', File []),
             (js ''mod.ts'', File (export_line \<lparr>namespace = js ''A'', path = js ''a.ts''\<rparr>))]"
    by (simp add: dir_without_def without_def js_def)
  have wr: "barrel_write (Inr [\<lparr>namespace = js ''A'', path = js ''a.ts''\<rparr>],
       [(js ''.barrelignore'', Dir []), (js ''a.ts'', File [])])
     = (Inr True,
        Dir [(js ''.barrelignore'', Dir []), (js ''a.ts'', File []),
             (js ''mod.ts'', File (export_line \<lparr>namespace = js ''A'', path = js ''a.ts''\<rparr>))])"
    by (simp add: barrel_write_def render_def export_line_def js_def)
  show ?thesis
    using h rule_file_failure_is_soft [OF h, of literal_engine "new_Context (js ''./'') None"]
    unfolding w l wr
    by (simp add: d del: barrel.simps)
qed

end
